theory Spec2Isabelle
  imports Main
begin

section \<open>Bytes, errors and shared helpers\<close>

text \<open>
  The repository holds several generations of the CSV reader, all named \<open>Reader\<close> with a
  method \<open>Read\<close>.  Four of them are embedded here, each under its own suffix:
  \<^item> the line-based reader of \<open>csvc.go\<close> (\<open>readLine\<close>, \<open>Read_line\<close>),
  \<^item> the byte-at-a-time reader with \<open>ReadByte\<close>/\<open>UnreadByte\<close> (\<open>Read_simple\<close>),
  \<^item> the streaming reader with \<open>ParseError\<close>, line and column (\<open>Read\<close>),
  \<^item> the five-state automaton with \<open>readRecord\<close> (\<open>Read_fsm\<close>).

  A Go \<open>string\<close>/\<open>[]byte\<close> is a list of 8-bit characters.  The byte source is a finite list
  of bytes followed by \<open>io.EOF\<close> for ever (what \<open>strings.NewReader\<close> gives); other I/O
  errors do not occur in this model.
\<close>

abbreviation LF :: char where "LF \<equiv> CHR 0x0A"
abbreviation CR :: char where "CR \<equiv> CHR 0x0D"
abbreviation DQ :: char where "DQ \<equiv> CHR 0x22"
abbreviation COMMA :: char where "COMMA \<equiv> CHR 0x2C"

datatype parse_err = ErrBareQuote | ErrUnterminatedQuote

datatype error = EOF | ErrFieldCount | ParseError (Line: nat) (Column: nat) (Err: parse_err)

text \<open>Go's \<open>s[lo:hi]\<close>.  Every use below has \<open>lo \<le> hi \<le> len(s)\<close>, where Go does not panic.\<close>

definition slice :: "string \<Rightarrow> nat \<Rightarrow> nat \<Rightarrow> string" where
  "slice s lo hi = take (hi - lo) (drop lo s)"

section \<open>The streaming reader with \<open>ParseError\<close>\<close>

text \<open>
  \<open>buf\<close>, \<open>bufPos\<close>, \<open>bufLen\<close>, \<open>bufErr\<close> and the source behind them are one list: the bytes
  not yet consumed.  \<open>readByte\<close> takes its head, \<open>peekByte\<close> looks at it, and \<open>r.bufPos++\<close>
  after a successful peek drops it.  \<open>src = None\<close> is the nil source.
\<close>

record Reader =
  src :: "string option"
  Comma :: char
  Quote :: char
  ReuseRecord :: bool
  finished :: bool
  line :: nat

definition NewReader :: "string \<Rightarrow> Reader" where
  "NewReader bytes = \<lparr> src = Some bytes, Comma = COMMA, Quote = DQ, ReuseRecord = False,
                        finished = False, line = 1 \<rparr>"

definition wrapError :: "nat \<Rightarrow> nat \<Rightarrow> parse_err \<Rightarrow> error" where
  "wrapError ln column err = ParseError ln column err"

text \<open>
  \<open>buildRecord\<close>: field \<open>i\<close> is \<open>recordStr[fieldBounds[2*i] : fieldBounds[2*i+1]]\<close>.  With or
  without \<open>ReuseRecord\<close> the strings are the same; only their storage differs.
\<close>

definition buildRecord :: "nat list \<Rightarrow> string \<Rightarrow> string list" where
  "buildRecord fieldBounds dataBuf =
     map (\<lambda>i. slice dataBuf (fieldBounds ! (2 * i)) (fieldBounds ! (2 * i + 1)))
         [0 ..< length fieldBounds div 2]"

text \<open>
  The \<open>for\<close> loop of \<open>Read\<close>.  Arguments: delimiter, quote, the locals \<open>inQuotes\<close>,
  \<open>sawQuotedField\<close>, \<open>column\<close>, \<open>fieldStart\<close>, \<open>dataBuf\<close>, \<open>fieldBounds\<close>, then \<open>r.line\<close> and
  the unread bytes.  Result: what \<open>Read\<close> returns, the unread bytes, \<open>r.line\<close> and whether
  \<open>r.finished\<close> was set.
\<close>

fun readLoop :: "char \<Rightarrow> char \<Rightarrow> bool \<Rightarrow> bool \<Rightarrow> nat \<Rightarrow> nat \<Rightarrow> string \<Rightarrow> nat list \<Rightarrow> nat \<Rightarrow> string
                 \<Rightarrow> (error + string list) \<times> string \<times> nat \<times> bool" where
  "readLoop comma quote inQuotes sawQuotedField column fieldStart dataBuf fieldBounds ln [] =
     (if inQuotes then (Inl (wrapError ln column ErrUnterminatedQuote), [], ln, True)
      else if fieldBounds \<noteq> [] \<or> dataBuf \<noteq> [] \<or> sawQuotedField
        then (Inr (buildRecord (fieldBounds @ [fieldStart, length dataBuf]) dataBuf), [], ln, True)
      else (Inl EOF, [], ln, True))"
| "readLoop comma quote inQuotes sawQuotedField column fieldStart dataBuf fieldBounds ln (b # rest) =
     (if inQuotes then
        (if b = quote then
           (case rest of
              [] \<Rightarrow> readLoop comma quote False sawQuotedField (column + 1) fieldStart dataBuf
                      fieldBounds ln rest
            | nxt # rest' \<Rightarrow>
                if nxt = quote
                then readLoop comma quote inQuotes sawQuotedField (column + 2) fieldStart
                       (dataBuf @ [quote]) fieldBounds ln rest'
                else readLoop comma quote False sawQuotedField (column + 1) fieldStart dataBuf
                       fieldBounds ln rest)
         else if b = LF
           then readLoop comma quote inQuotes sawQuotedField 1 fieldStart (dataBuf @ [b])
                  fieldBounds (ln + 1) rest
         else readLoop comma quote inQuotes sawQuotedField (column + 1) fieldStart (dataBuf @ [b])
                  fieldBounds ln rest)
      else if b = comma
        then readLoop comma quote inQuotes False (column + 1) (length dataBuf) dataBuf
               (fieldBounds @ [fieldStart, length dataBuf]) ln rest
      else if b = LF
        then (Inr (buildRecord (fieldBounds @ [fieldStart, length dataBuf]) dataBuf),
              rest, ln + 1, False)
      else if b = CR
        then (Inr (buildRecord (fieldBounds @ [fieldStart, length dataBuf]) dataBuf),
              (case rest of [] \<Rightarrow> rest | nxt # rest' \<Rightarrow> if nxt = LF then rest' else rest),
              ln + 1, False)
      else if b = quote
        then (if length dataBuf = fieldStart \<and> \<not> sawQuotedField
              then readLoop comma quote True True (column + 1) fieldStart dataBuf fieldBounds ln rest
              else (Inl (wrapError ln column ErrBareQuote), rest, ln, False))
      else readLoop comma quote inQuotes sawQuotedField (column + 1) fieldStart (dataBuf @ [b])
             fieldBounds ln rest)"

definition Read :: "Reader \<Rightarrow> (error + string list) \<times> Reader" where
  "Read r =
     (case src r of
        None \<Rightarrow> (Inl EOF, r)
      | Some bytes \<Rightarrow>
          if finished r then (Inl EOF, r)
          else
            let comma = (if Comma r = CHR 0x00 then COMMA else Comma r);
                quote = (if Quote r = CHR 0x00 then DQ else Quote r);
                (res, rest, ln, fin) = readLoop comma quote False False 1 0 [] [] (line r) bytes
            in (res, r\<lparr> src := Some rest, line := ln, finished := (finished r \<or> fin) \<rparr>))"


section \<open>The line-based reader of \<open>csvc.go\<close>\<close>

text \<open>
  \<open>Comma\<close> and \<open>Comment\<close> are runes and \<open>FieldsPerRecord\<close> is a Go \<open>int\<close>; \<open>byte(r.Comma)\<close>
  keeps the low eight bits, which is \<open>char_of\<close>.
\<close>

record LineReader =
  l_src :: string
  l_Comma :: int
  l_Comment :: int
  l_FieldsPerRecord :: int
  l_LazyQuotes :: bool
  l_numLine :: nat

definition NewReader_line :: "string \<Rightarrow> LineReader" where
  "NewReader_line bytes = \<lparr> l_src = bytes, l_Comma = 44, l_Comment = 35, l_FieldsPerRecord = 0,
                             l_LazyQuotes = False, l_numLine = 0 \<rparr>"

text \<open>
  \<open>bufio.Reader.ReadSlice('\n')\<close> on a buffer of \<open>n\<close> bytes: the bytes up to and with the
  next LF if it lies in the next \<open>n\<close> bytes; else \<open>n\<close> bytes and \<open>ErrBufferFull\<close>; else all
  that is left and \<open>io.EOF\<close>.
\<close>

datatype slice_err = NoErr | ErrBufferFull | SliceEOF

definition ReadSlice :: "nat \<Rightarrow> string \<Rightarrow> string \<times> slice_err \<times> string" where
  "ReadSlice n bytes =
     (let w = take n bytes in
      if LF \<in> set w
        then let chunk = takeWhile (\<lambda>c. c \<noteq> LF) w @ [LF] in (chunk, NoErr, drop (length chunk) bytes)
      else if length bytes \<ge> n then (w, ErrBufferFull, drop n bytes)
      else (bytes, SliceEOF, []))"

text \<open>
  \<open>bufio.Reader.ReadLine\<close> on the 4096-byte buffer of \<open>bufio.NewReader\<close>: line, \<open>isPrefix\<close>,
  error and the unread bytes.  On \<open>ErrBufferFull\<close> the piece is a prefix of the line; a CR at
  its end is put back.  Otherwise the LF, and a CR right before it, are dropped; no bytes at
  all is \<open>io.EOF\<close>.
\<close>

definition defaultBufSize :: nat where
  "defaultBufSize = 4096"

definition ReadLine :: "string \<Rightarrow> string \<times> bool \<times> slice_err \<times> string" where
  "ReadLine bytes =
     (let (ln, err, rest) = ReadSlice defaultBufSize bytes in
      if err = ErrBufferFull then
        (if ln \<noteq> [] \<and> last ln = CR then (butlast ln, True, NoErr, CR # rest)
         else (ln, True, NoErr, rest))
      else if ln = [] then ([], False, err, rest)
      else if last ln = LF then
        (let drp = (if length ln > 1 \<and> ln ! (length ln - 2) = CR then 2 else 1)
         in (take (length ln - drp) ln, False, NoErr, rest))
      else (ln, False, NoErr, rest))"

lemma ReadLine_prefix_shrinks:
  "ReadLine bytes = (l, True, err, rest) \<Longrightarrow> length rest < length bytes"
  by (auto simp: ReadLine_def ReadSlice_def defaultBufSize_def Let_def split: if_splits)

text \<open>
  The loop of \<open>readLine\<close>: the pieces are appended to \<open>line\<close> until one is not a prefix; an
  error of \<open>ReadLine\<close> ends the loop with that error and without the bytes gathered so far.
\<close>

function readLineLoop :: "string \<Rightarrow> string \<Rightarrow> (error + string) \<times> string" where
  "readLineLoop ln bytes =
     (let (l, isPrefix, err, rest) = ReadLine bytes in
      if err \<noteq> NoErr then (Inl EOF, rest)
      else if isPrefix then readLineLoop (ln @ l) rest
      else (Inr (ln @ l), rest))"
  by pat_completeness auto

termination readLineLoop
  by (relation "measure (\<lambda>(ln, bytes). length bytes)")
     (auto dest: ReadLine_prefix_shrinks [OF sym])

declare readLineLoop.simps [simp del]

definition readLine :: "LineReader \<Rightarrow> (error + string) \<times> LineReader" where
  "readLine r =
     (case readLineLoop [] (l_src r) of
        (Inl err, rest) \<Rightarrow> (Inl err, r\<lparr> l_src := rest \<rparr>)
      | (Inr ln, rest) \<Rightarrow> (Inr ln, r\<lparr> l_src := rest, l_numLine := l_numLine r + 1 \<rparr>))"

text \<open>
  \<open>strings.TrimSpace\<close> removes the runes of \<open>unicode.IsSpace\<close> from both ends.  On bytes these
  are the six ASCII spaces and the UTF-8 encodings of U+0085, U+00A0, U+1680, U+2000 to
  U+200A, U+2028, U+2029, U+202F, U+205F and U+3000; an invalid byte decodes to U+FFFD, which
  is no space.
\<close>

definition spaceRunes :: "string list" where
  "spaceRunes =
     [[CHR 0x09], [LF], [CHR 0x0B], [CHR 0x0C], [CR], [CHR 0x20],
      [CHR 0xC2, CHR 0x85], [CHR 0xC2, CHR 0xA0], [CHR 0xE1, CHR 0x9A, CHR 0x80],
      [CHR 0xE2, CHR 0x80, CHR 0x80], [CHR 0xE2, CHR 0x80, CHR 0x81],
      [CHR 0xE2, CHR 0x80, CHR 0x82], [CHR 0xE2, CHR 0x80, CHR 0x83],
      [CHR 0xE2, CHR 0x80, CHR 0x84], [CHR 0xE2, CHR 0x80, CHR 0x85],
      [CHR 0xE2, CHR 0x80, CHR 0x86], [CHR 0xE2, CHR 0x80, CHR 0x87],
      [CHR 0xE2, CHR 0x80, CHR 0x88], [CHR 0xE2, CHR 0x80, CHR 0x89],
      [CHR 0xE2, CHR 0x80, CHR 0x8A], [CHR 0xE2, CHR 0x80, CHR 0xA8],
      [CHR 0xE2, CHR 0x80, CHR 0xA9], [CHR 0xE2, CHR 0x80, CHR 0xAF],
      [CHR 0xE2, CHR 0x81, CHR 0x9F], [CHR 0xE3, CHR 0x80, CHR 0x80]]"

definition leadingSpace :: "string \<Rightarrow> string option" where
  "leadingSpace s = find (\<lambda>p. take (length p) s = p) spaceRunes"

definition trailingSpace :: "string \<Rightarrow> string option" where
  "trailingSpace s =
     find (\<lambda>p. length p \<le> length s \<and> drop (length s - length p) s = p) spaceRunes"

function TrimLeft :: "string \<Rightarrow> string" where
  "TrimLeft s = (case leadingSpace s of None \<Rightarrow> s | Some p \<Rightarrow> TrimLeft (drop (length p) s))"
  by pat_completeness auto

function TrimRight :: "string \<Rightarrow> string" where
  "TrimRight s =
     (case trailingSpace s of None \<Rightarrow> s | Some p \<Rightarrow> TrimRight (take (length s - length p) s))"
  by pat_completeness auto

lemma spaceRunes_nonempty: "p \<in> set spaceRunes \<Longrightarrow> p \<noteq> []"
  by (auto simp: spaceRunes_def)

lemma leadingSpace_Some: "leadingSpace s = Some p \<Longrightarrow> p \<noteq> [] \<and> take (length p) s = p"
  unfolding leadingSpace_def by (auto simp: find_Some_iff spaceRunes_nonempty)

lemma leadingSpace_shrinks: "leadingSpace s = Some p \<Longrightarrow> length s - length p < length s"
proof -
  assume a: "leadingSpace s = Some p"
  then have p: "p \<noteq> []" and t: "take (length p) s = p" by (auto dest: leadingSpace_Some)
  from t have "length (take (length p) s) = length p" by simp
  then have "length p \<le> length s" by simp
  with p show ?thesis by (cases p) auto
qed

lemma trailingSpace_Some: "trailingSpace s = Some p \<Longrightarrow> p \<noteq> [] \<and> length p \<le> length s"
  unfolding trailingSpace_def by (auto simp: find_Some_iff spaceRunes_nonempty)

lemma trailingSpace_shrinks: "trailingSpace s = Some p \<Longrightarrow> length s - length p < length s"
  by (drule trailingSpace_Some) (cases p; auto)

termination TrimLeft
  by (relation "measure length") (auto dest: leadingSpace_shrinks)

termination TrimRight
  by (relation "measure length") (auto dest: trailingSpace_shrinks)

declare TrimLeft.simps [simp del] TrimRight.simps [simp del]

definition TrimSpace :: "string \<Rightarrow> string" where
  "TrimSpace s = TrimRight (TrimLeft s)"

text \<open>
  The loop over \<open>line\<close> that finds the field boundaries.  The list argument is \<open>line[i:]\<close>, so
  \<open>line[i+1]\<close> is the head of its tail; skipping an escaped quote is \<open>i + 2\<close>.
  \<open>fieldIndexes\<close> is flat, as in the source: start, end, start, end, ...
\<close>

fun scanLine :: "char \<Rightarrow> string \<Rightarrow> nat \<Rightarrow> bool \<Rightarrow> nat \<Rightarrow> nat list \<Rightarrow> nat \<times> nat list" where
  "scanLine comma [] i inQuotes fieldStart fieldIndexes = (fieldStart, fieldIndexes)"
| "scanLine comma (c # cs) i inQuotes fieldStart fieldIndexes =
     (if c = DQ then
        (if inQuotes then
           (case cs of
              [] \<Rightarrow> scanLine comma cs (i + 1) False fieldStart fieldIndexes
            | nxt # cs' \<Rightarrow>
                if nxt = DQ then scanLine comma cs' (i + 2) inQuotes fieldStart fieldIndexes
                else scanLine comma cs (i + 1) False fieldStart fieldIndexes)
         else scanLine comma cs (i + 1) True fieldStart fieldIndexes)
      else if c = comma then
        (if \<not> inQuotes
         then scanLine comma cs (i + 1) inQuotes (i + 1) (fieldIndexes @ [fieldStart, i])
         else scanLine comma cs (i + 1) inQuotes fieldStart fieldIndexes)
      else scanLine comma cs (i + 1) inQuotes fieldStart fieldIndexes)"

text \<open>\<open>strings.ReplaceAll(field, "\"\"", "\"")\<close>: non-overlapping, left to right.\<close>

fun ReplaceAll_dq :: "string \<Rightarrow> string" where
  "ReplaceAll_dq (a # b # cs) =
     (if a = DQ \<and> b = DQ then DQ # ReplaceAll_dq cs else a # ReplaceAll_dq (b # cs))"
| "ReplaceAll_dq cs = cs"

definition unquoteField :: "string \<Rightarrow> string" where
  "unquoteField field =
     (if length field \<ge> 2 \<and> hd field = DQ \<and> last field = DQ
      then ReplaceAll_dq (slice field 1 (length field - 1))
      else field)"

text \<open>The extraction loop, two entries of \<open>fieldIndexes\<close> at a time (its length is even).\<close>

fun extractFields :: "string \<Rightarrow> nat list \<Rightarrow> string list" where
  "extractFields ln (start # end # fieldIndexes) =
     unquoteField (slice ln start end) # extractFields ln fieldIndexes"
| "extractFields ln fieldIndexes = []"

definition parseLine :: "char \<Rightarrow> string \<Rightarrow> string list" where
  "parseLine comma ln =
     (let (fieldStart, fi0) = scanLine comma ln 0 False 0 [];
          fi1 = (if fieldStart \<le> length ln then fi0 @ [fieldStart, length ln] else fi0);
          fi2 = (if length ln > 0 \<and> last ln = comma then fi1 @ [length ln, length ln] else fi1)
      in extractFields ln fi2)"

lemma ReadLine_done_shrinks:
  "ReadLine bytes = (l, False, NoErr, rest) \<Longrightarrow> bytes \<noteq> [] \<Longrightarrow> length rest < length bytes"
  by (auto simp: ReadLine_def ReadSlice_def defaultBufSize_def Let_def split: if_splits)

lemma ReadLine_empty: "ReadLine [] = ([], False, SliceEOF, [])"
  by (simp add: ReadLine_def ReadSlice_def defaultBufSize_def)

lemma readLineLoop_shrinks:
  "readLineLoop ln bytes = (Inr l, rest) \<Longrightarrow> length rest < length bytes"
proof (induction ln bytes rule: readLineLoop.induct)
  case (1 ln bytes)
  obtain l0 isPrefix err rest0 where rl: "ReadLine bytes = (l0, isPrefix, err, rest0)"
    by (metis prod_cases4)
  show ?case
  proof (cases "err \<noteq> NoErr")
    case True
    with "1.prems" rl show ?thesis by (simp add: readLineLoop.simps [of ln bytes])
  next
    case False
    show ?thesis
    proof (cases isPrefix)
      case True
      with "1.prems" rl False have "readLineLoop (ln @ l0) rest0 = (Inr l, rest)"
        by (simp add: readLineLoop.simps [of ln bytes])
      with "1.IH" [OF rl [symmetric] refl refl] False True
      have "length rest < length rest0" by simp
      moreover from rl True have "length rest0 < length bytes"
        by (auto dest: ReadLine_prefix_shrinks)
      ultimately show ?thesis by simp
    next
      case np: False
      with "1.prems" rl False have r: "rest = rest0"
        by (simp add: readLineLoop.simps [of ln bytes])
      from rl np False have "bytes \<noteq> []" by (auto simp: ReadLine_empty)
      with rl np False r show ?thesis by (auto dest: ReadLine_done_shrinks)
    qed
  qed
qed

function Read_line :: "LineReader \<Rightarrow> (error + string list) \<times> LineReader" where
  "Read_line r =
     (case readLine r of
        (Inl err, r1) \<Rightarrow> (Inl err, r1)
      | (Inr line0, r1) \<Rightarrow>
          let ln = TrimSpace line0 in
          if ln = [] \<or> (l_Comment r1 \<noteq> 0 \<and> hd ln = char_of (l_Comment r1)) then Read_line r1
          else
            let record = parseLine (char_of (l_Comma r1)) ln in
            if l_FieldsPerRecord r1 > 0 then
              (if int (length record) \<noteq> l_FieldsPerRecord r1 then (Inl ErrFieldCount, r1)
               else (Inr record, r1))
            else if l_FieldsPerRecord r1 = 0
              then (Inr record, r1\<lparr> l_FieldsPerRecord := int (length record) \<rparr>)
            else (Inr record, r1))"
  by pat_completeness auto

termination Read_line
  by (relation "measure (\<lambda>r. length (l_src r))")
     (auto simp: readLine_def split: prod.splits sum.splits dest: readLineLoop_shrinks)

declare Read_line.simps [simp del]

section \<open>The byte-at-a-time reader\<close>



section \<open>The five-state automaton with \<open>readRecord\<close>\<close>

record FsmReader =
  f_src :: string
  f_Comma :: char
  f_FieldCount :: int

definition NewReader_fsm :: "string \<Rightarrow> FsmReader" where
  "NewReader_fsm bytes = \<lparr> f_src = bytes, f_Comma = COMMA, f_FieldCount = 0 \<rparr>"

text \<open>\<open>readRecord\<close> reads with \<open>ReadSlice\<close> from the 8192-byte buffer of \<open>NewReaderSize\<close>.\<close>

definition bufferSize :: nat where
  "bufferSize = 8192"

text \<open>The quote scan of \<open>readRecord\<close> over \<open>b.buf[start:]\<close>.\<close>

fun quoteScan :: "string \<Rightarrow> bool \<Rightarrow> bool" where
  "quoteScan [] insideQuoted = insideQuoted"
| "quoteScan (c # cs) insideQuoted =
     (if c = DQ then
        (if insideQuoted then
           (case cs of
              [] \<Rightarrow> quoteScan cs False
            | nxt # cs' \<Rightarrow> if nxt = DQ then quoteScan cs' insideQuoted else quoteScan cs False)
         else quoteScan cs True)
      else quoteScan cs insideQuoted)"

text \<open>
  The accumulation loop of \<open>readRecord\<close>: \<open>Inl EOF\<close> when there is no data at all, else the
  bytes of the record with their terminator, and the unread bytes.
\<close>

function readRecordLoop :: "string \<Rightarrow> bool \<Rightarrow> string \<Rightarrow> (error + string) \<times> string" where
  "readRecordLoop buf insideQuoted bytes =
     (let (chunk, err, rest) = ReadSlice bufferSize bytes;
          buf' = (if chunk \<noteq> [] then buf @ chunk else buf);
          insideQuoted' =
            (if chunk \<noteq> [] then quoteScan (drop (length buf - 1) buf') insideQuoted
             else insideQuoted)
      in case err of
           NoErr \<Rightarrow> if \<not> insideQuoted' then (Inr buf', rest)
                    else readRecordLoop buf' insideQuoted' rest
         | ErrBufferFull \<Rightarrow> readRecordLoop buf' insideQuoted' rest
         | SliceEOF \<Rightarrow> if buf' = [] then (Inl EOF, rest) else (Inr buf', rest))"
  by pat_completeness auto

lemma ReadSlice_progress:
  "ReadSlice bufferSize bytes = (chunk, err, rest) \<Longrightarrow> err \<noteq> SliceEOF \<Longrightarrow>
   length rest < length bytes"
  by (cases "bytes = []") (auto simp: ReadSlice_def Let_def bufferSize_def split: if_splits)

termination readRecordLoop
  by (relation "measure (\<lambda>(buf, q, bytes). length bytes)")
     (auto dest: ReadSlice_progress [OF sym])

declare readRecordLoop.simps [simp del]

definition trimTerminator :: "string \<Rightarrow> string" where
  "trimTerminator buf =
     (let end = length buf in
      if end > 0 \<and> buf ! (end - 1) = LF then
        (if end - 1 > 0 \<and> buf ! (end - 1 - 1) = CR then take (end - 1 - 1) buf
         else take (end - 1) buf)
      else if end > 0 \<and> buf ! (end - 1) = CR then take (end - 1) buf
      else buf)"

definition readRecord :: "FsmReader \<Rightarrow> (error + string) \<times> FsmReader" where
  "readRecord b =
     (case readRecordLoop [] False (f_src b) of
        (Inl err, rest) \<Rightarrow> (Inl err, b\<lparr> f_src := rest \<rparr>)
      | (Inr buf, rest) \<Rightarrow> (Inr (trimTerminator buf), b\<lparr> f_src := rest \<rparr>))"

text \<open>
  The fast path of \<open>Read\<close> for a record without quotes: the list argument is \<open>b.buf[i:]\<close>.
\<close>

fun fastScan :: "char \<Rightarrow> string \<Rightarrow> nat \<Rightarrow> nat \<Rightarrow> nat list \<Rightarrow> nat list \<Rightarrow> nat
                 \<Rightarrow> nat \<times> nat list \<times> nat list \<times> nat" where
  "fastScan comma [] i start starts ends fieldCount = (start, starts, ends, fieldCount)"
| "fastScan comma (c # cs) i start starts ends fieldCount =
     (if c = comma
      then fastScan comma cs (i + 1) (i + 1) (starts @ [start]) (ends @ [i]) (fieldCount + 1)
      else fastScan comma cs (i + 1) start starts ends fieldCount)"

datatype state = STATE_START_FIELD | STATE_UNQUOTED | STATE_QUOTED | STATE_QUOTE_IN_QUOTED
  | STATE_END_FIELD

text \<open>The locals of the automaton.  \<open>fieldStart\<close> is an \<open>int\<close> because the source uses \<open>-1\<close>
  for "no field open".\<close>

record machine =
  state :: state
  lastWasComma :: bool
  fieldStart :: int
  out :: string
  starts :: "int list"
  ends :: "int list"
  fieldCount :: nat

text \<open>
  The loop of the automaton over \<open>b.buf[i:]\<close>.  In \<open>STATE_QUOTED\<close> on a byte that is no quote,
  \<open>bytes.IndexByte\<close> finds the next quote at offset \<open>idx\<close>: the run before it is copied and
  the loop goes on after that quote; with no quote left the rest is copied and the loop ends.
  No case of the \<open>switch\<close> is for \<open>STATE_END_FIELD\<close>.
\<close>

function fsmLoop :: "char \<Rightarrow> string \<Rightarrow> machine \<Rightarrow> machine" where
  "fsmLoop comma [] m = m"
| "fsmLoop comma (ch # rest) m0 =
     (let m = m0\<lparr> lastWasComma := False \<rparr> in
      case state m of
        STATE_START_FIELD \<Rightarrow>
          (if ch = DQ
             then fsmLoop comma rest (m\<lparr> fieldStart := int (length (out m)), state := STATE_QUOTED \<rparr>)
           else if ch = comma
             then fsmLoop comma rest
                    (m\<lparr> starts := starts m @ [int (length (out m))],
                        ends := ends m @ [int (length (out m))],
                        fieldCount := fieldCount m + 1,
                        lastWasComma := True, state := STATE_START_FIELD \<rparr>)
           else fsmLoop comma rest
                  (m\<lparr> fieldStart := int (length (out m)), out := out m @ [ch],
                      state := STATE_UNQUOTED \<rparr>))
      | STATE_UNQUOTED \<Rightarrow>
          (if ch = comma
             then fsmLoop comma rest
                    (m\<lparr> starts := starts m @ [fieldStart m],
                        ends := ends m @ [int (length (out m))],
                        fieldCount := fieldCount m + 1, fieldStart := - 1,
                        lastWasComma := True, state := STATE_START_FIELD \<rparr>)
           else fsmLoop comma rest (m\<lparr> out := out m @ [ch] \<rparr>))
      | STATE_QUOTED \<Rightarrow>
          (if ch \<noteq> DQ then
             (if DQ \<in> set (ch # rest)
              then let idx = length (takeWhile (\<lambda>c. c \<noteq> DQ) (ch # rest))
                   in fsmLoop comma (drop (idx + 1) (ch # rest))
                        (m\<lparr> out := out m @ take idx (ch # rest), state := STATE_QUOTE_IN_QUOTED \<rparr>)
              else fsmLoop comma [] (m\<lparr> out := out m @ (ch # rest) \<rparr>))
           else fsmLoop comma rest (m\<lparr> state := STATE_QUOTE_IN_QUOTED \<rparr>))
      | STATE_QUOTE_IN_QUOTED \<Rightarrow>
          (if ch = DQ
             then fsmLoop comma rest (m\<lparr> out := out m @ [DQ], state := STATE_QUOTED \<rparr>)
           else if ch = comma
             then fsmLoop comma rest
                    (m\<lparr> starts := starts m @ [fieldStart m],
                        ends := ends m @ [int (length (out m))],
                        fieldCount := fieldCount m + 1, fieldStart := - 1,
                        lastWasComma := True, state := STATE_START_FIELD \<rparr>)
           else fsmLoop comma rest
                  (m\<lparr> starts := starts m @ [fieldStart m],
                      ends := ends m @ [int (length (out m))],
                      fieldCount := fieldCount m + 1,
                      fieldStart := int (length (out m)), out := out m @ [ch],
                      state := STATE_UNQUOTED \<rparr>))
      | STATE_END_FIELD \<Rightarrow> fsmLoop comma rest m)"
  by pat_completeness auto

termination fsmLoop
  by (relation "measure (\<lambda>(comma, buf, m). length buf)") auto

definition finishFields :: "machine \<Rightarrow> machine" where
  "finishFields m =
     (if fieldStart m \<noteq> - 1 \<and>
         (state m = STATE_QUOTED \<or> state m = STATE_QUOTE_IN_QUOTED \<or> state m = STATE_UNQUOTED)
      then m\<lparr> starts := starts m @ [fieldStart m], ends := ends m @ [int (length (out m))],
              fieldCount := fieldCount m + 1 \<rparr>
      else if lastWasComma m
      then m\<lparr> starts := starts m @ [int (length (out m))], ends := ends m @ [int (length (out m))],
              fieldCount := fieldCount m + 1 \<rparr>
      else m)"

text \<open>The padding at the end of both paths, and the update of \<open>b.FieldCount\<close>; \<open>n\<close> is the local \<open>fieldCount\<close>.\<close>

definition padFields :: "int \<Rightarrow> nat \<Rightarrow> string list \<Rightarrow> string list \<times> int" where
  "padFields FieldCount n fields0 =
     (let fc = (if FieldCount = 0 then int n else FieldCount) in
      (if int n < fc then fields0 @ replicate (nat (fc - int n)) [] else fields0, fc))"

definition Read_fsm :: "FsmReader \<Rightarrow> (error + string list) \<times> FsmReader" where
  "Read_fsm b =
     (case readRecord b of
        (Inl err, b1) \<Rightarrow> (Inl err, b1)
      | (Inr buf, b1) \<Rightarrow>
          if DQ \<notin> set buf then
            (let (start, starts0, ends0, fieldCount0) = fastScan (f_Comma b1) buf 0 0 [] [] 0;
                 starts1 = starts0 @ [start];
                 ends1 = ends0 @ [length buf];
                 fields0 = map (\<lambda>(s, e). slice buf s e) (zip starts1 ends1);
                 (fields1, fc) = padFields (f_FieldCount b1) (fieldCount0 + 1) fields0
             in (Inr fields1, b1\<lparr> f_FieldCount := fc \<rparr>))
          else
            (let m = finishFields
                       (fsmLoop (f_Comma b1) buf
                          \<lparr> state = STATE_START_FIELD, lastWasComma = False, fieldStart = - 1,
                            out = [], starts = [], ends = [], fieldCount = 0 \<rparr>);
                 fields0 = map (\<lambda>(s, e). slice (out m) (nat s) (nat e)) (zip (starts m) (ends m));
                 (fields1, fc) = padFields (f_FieldCount b1) (fieldCount m) fields0
             in (Inr fields1, b1\<lparr> f_FieldCount := fc \<rparr>)))"

section \<open>Notions used to state the properties\<close>

text \<open>
  The serialised form of a record, to state what the readers decode: a field is written bare
  (then it holds no delimiter, quote, CR or LF) or between quotes with every quote inside it
  doubled; fields are joined by the delimiter.  \<open>sane\<close> rules out a delimiter or quote that
  is a line ending or equal to the other.
\<close>

definition sane :: "char \<Rightarrow> char \<Rightarrow> bool" where
  "sane c q \<longleftrightarrow> c \<noteq> q \<and> c \<noteq> LF \<and> c \<noteq> CR \<and> q \<noteq> LF \<and> q \<noteq> CR"

definition plain :: "char \<Rightarrow> char \<Rightarrow> char \<Rightarrow> bool" where
  "plain c q b \<longleftrightarrow> b \<noteq> c \<and> b \<noteq> q \<and> b \<noteq> LF \<and> b \<noteq> CR"

fun escape :: "char \<Rightarrow> string \<Rightarrow> string" where
  "escape q [] = []"
| "escape q (b # bs) = (if b = q then q # q # escape q bs else b # escape q bs)"

datatype field_src = Bare string | Quoted string

fun text_of :: "field_src \<Rightarrow> string" where
  "text_of (Bare f) = f"
| "text_of (Quoted f) = f"

fun enc :: "char \<Rightarrow> field_src \<Rightarrow> string" where
  "enc q (Bare f) = f"
| "enc q (Quoted f) = q # escape q f @ [q]"

fun wellformed :: "char \<Rightarrow> char \<Rightarrow> field_src \<Rightarrow> bool" where
  "wellformed c q (Bare f) = list_all (plain c q) f"
| "wellformed c q (Quoted f) = True"

fun is_quoted :: "field_src \<Rightarrow> bool" where
  "is_quoted (Bare f) = False"
| "is_quoted (Quoted f) = True"

fun encRecord :: "char \<Rightarrow> char \<Rightarrow> field_src list \<Rightarrow> string" where
  "encRecord c q [] = []"
| "encRecord c q [x] = enc q x"
| "encRecord c q (x # y # xs) = enc q x @ c # encRecord c q (y # xs)"

fun boundsOf :: "nat \<Rightarrow> string list \<Rightarrow> nat list" where
  "boundsOf k [] = []"
| "boundsOf k (t # ts) = k # (k + length t) # boundsOf (k + length t) ts"

text \<open>The locals \<open>comma\<close> and \<open>quote\<close> of \<open>Read\<close>: the configured byte, or the default when it is 0.\<close>

definition comma_of :: "Reader \<Rightarrow> char" where
  "comma_of r = (if Comma r = CHR 0x00 then COMMA else Comma r)"

definition quote_of :: "Reader \<Rightarrow> char" where
  "quote_of r = (if Quote r = CHR 0x00 then DQ else Quote r)"

text \<open>The reader after \<open>n\<close> further calls of \<open>Read\<close>.\<close>

fun afterReads :: "nat \<Rightarrow> Reader \<Rightarrow> Reader" where
  "afterReads 0 r = r"
| "afterReads (Suc n) r = afterReads n (snd (Read r))"

text \<open>
  Modelled from the spec: the location of the next byte after the bytes \<open>bs\<close>, when they
  begin at line \<open>ln\<close>, column \<open>col\<close>.  The spec's line number is 1-based and "incremented on
  every physical newline consumed, including newlines inside quoted fields", its column is
  1-based and "reset at each physical newline"; a physical newline is LF, CR LF (one
  newline) or a bare CR.
\<close>

fun locate :: "nat \<Rightarrow> nat \<Rightarrow> string \<Rightarrow> nat \<times> nat" where
  "locate ln col [] = (ln, col)"
| "locate ln col (b # bs) =
     (if b = LF then locate (ln + 1) 1 bs
      else if b = CR \<and> (bs = [] \<or> hd bs \<noteq> LF) then locate (ln + 1) 1 bs
      else locate ln (col + 1) bs)"

text \<open>No bare CR in the bytes: every CR is followed by LF.\<close>

fun noBareCR :: "string \<Rightarrow> bool" where
  "noBareCR [] = True"
| "noBareCR (b # bs) = ((b = CR \<longrightarrow> bs \<noteq> [] \<and> hd bs = LF) \<and> noBareCR bs)"

text \<open>The white space bytes of ASCII other than LF, which ends the physical line.\<close>

definition blankByte :: "char \<Rightarrow> bool" where
  "blankByte b \<longleftrightarrow> b = CHR 0x09 \<or> b = CHR 0x0B \<or> b = CHR 0x0C \<or> b = CR \<or> b = CHR 0x20"

text \<open>An ASCII byte that is no white space.\<close>

definition visibleByte :: "char \<Rightarrow> bool" where
  "visibleByte b \<longleftrightarrow> of_char b < (128::nat) \<and> \<not> blankByte b \<and> b \<noteq> LF"

text \<open>Two adjacent quote bytes somewhere in a text: the raw escape sequence.\<close>

fun hasRawEscape :: "char \<Rightarrow> string \<Rightarrow> bool" where
  "hasRawEscape q (a # b # bs) = ((a = q \<and> b = q) \<or> hasRawEscape q (b # bs))"
| "hasRawEscape q bs = False"

section \<open>Lemmas on the loop of the streaming reader\<close>

text \<open>
  Auxiliary: the value of the local \<open>column\<close> of \<open>Read\<close> after the loop has passed the bytes
  \<open>bs\<close>, when it was \<open>col\<close> before them.  The loop adds one for a byte (two for a doubled
  quote, which is two bytes) and sets it to 1 after LF inside quotes; outside quotes LF ends
  the call.
\<close>

fun loopColumn :: "nat \<Rightarrow> string \<Rightarrow> nat" where
  "loopColumn col [] = col"
| "loopColumn col (b # bs) = loopColumn (if b = LF then 1 else col + 1) bs"

lemma plain_no_LF: "list_all (plain c q) f \<Longrightarrow> count_list f LF = 0"
  by (induction f) (auto simp: plain_def)

lemma loopColumn_append: "loopColumn col (xs @ ys) = loopColumn (loopColumn col xs) ys"
  by (induction xs arbitrary: col) simp_all

lemma loopColumn_no_LF: "LF \<notin> set xs \<Longrightarrow> loopColumn col xs = col + length xs"
  by (induction xs arbitrary: col) auto

lemma readLoop_plain:
  "list_all (plain c q) xs \<Longrightarrow>
   readLoop c q False sq col fs0 d fb ln (xs @ rest) =
   readLoop c q False sq (loopColumn col xs) fs0 (d @ xs) fb ln rest"
  by (induction xs arbitrary: col d) (simp_all add: plain_def)

lemma readLoop_quoted:
  "q \<noteq> LF \<Longrightarrow> rest = [] \<or> hd rest \<noteq> q \<Longrightarrow>
   readLoop c q True sq col fs0 d fb ln (escape q f @ q # rest) =
   readLoop c q False sq (loopColumn col (escape q f @ [q])) fs0 (d @ f) fb
     (ln + count_list f LF) rest"
proof (induction f arbitrary: col d ln)
  case Nil
  then show ?case by (cases rest) auto
next
  case (Cons b f)
  show ?case
  proof (cases "b = q")
    case True
    from Cons.IH [OF Cons.prems, of "col + 2" "d @ [q]" ln] True Cons.prems(1)
    show ?thesis by auto
  next
    case False
    show ?thesis
    proof (cases "b = LF")
      case True
      from Cons.IH [OF Cons.prems, of 1 "d @ [b]" "ln + 1"] True False
      show ?thesis by auto
    next
      case nl: False
      from Cons.IH [OF Cons.prems, of "col + 1" "d @ [b]" ln] nl False
      show ?thesis by auto
    qed
  qed
qed

lemma readLoop_field:
  assumes "sane c q" "wellformed c q x" "rest = [] \<or> hd rest \<noteq> q"
  shows "readLoop c q False False col (length d) d fb ln (enc q x @ rest) =
          readLoop c q False (is_quoted x) (loopColumn col (enc q x)) (length d) (d @ text_of x) fb
            (ln + count_list (text_of x) LF) rest"
proof (cases x)
  case (Bare f)
  with assms show ?thesis by (auto simp: readLoop_plain plain_no_LF)
next
  case (Quoted f)
  from assms(1) have q: "q \<noteq> LF" by (simp add: sane_def)
  from readLoop_quoted [OF q assms(3), of c True "col + 1" "length d" d fb ln f]
  show ?thesis using Quoted assms(1) by (auto simp: sane_def)
qed

lemma readLoop_comma:
  "c \<noteq> LF \<Longrightarrow> readLoop c q False sq col fs0 d fb ln (c # rest) =
   readLoop c q False False (loopColumn col [c]) (length d) d (fb @ [fs0, length d]) ln rest"
  by simp

lemma boundsOf_append:
  "boundsOf k (ts @ [t]) = boundsOf k ts @ [k + length (concat ts), k + length (concat ts) + length t]"
  by (induction ts arbitrary: k) (simp_all add: add.assoc)

lemma readLoop_fields:
  assumes "sane c q" "list_all (wellformed c q) fl"
  shows "readLoop c q False False col (length d) d fb ln
                  (concat (map (\<lambda>x. enc q x @ [c]) fl) @ rest) =
          readLoop c q False False (loopColumn col (concat (map (\<lambda>x. enc q x @ [c]) fl)))
            (length (d @ concat (map text_of fl)))
            (d @ concat (map text_of fl)) (fb @ boundsOf (length d) (map text_of fl))
            (ln + count_list (concat (map text_of fl)) LF) rest"
  using assms(2)
proof (induction fl arbitrary: col d fb ln)
  case Nil
  then show ?case by auto
next
  case (Cons x fl)
  from assms(1) have cq: "c \<noteq> q" and cl: "c \<noteq> LF" by (simp_all add: sane_def)
  let ?tail = "concat (map (\<lambda>x. enc q x @ [c]) fl)"
  let ?rest = "c # ?tail @ rest"
  from Cons.prems have wx: "wellformed c q x" and wfl: "list_all (wellformed c q) fl" by auto
  have "?rest = [] \<or> hd ?rest \<noteq> q" using cq by simp
  note 1 = readLoop_field [OF assms(1) wx this, of col d fb ln]
  note 2 = Cons.IH [OF wfl, of "loopColumn (loopColumn col (enc q x)) [c]" "d @ text_of x"
                 "fb @ [length d, length (d @ text_of x)]" "ln + count_list (text_of x) LF"]
  have "readLoop c q False False col (length d) d fb ln
                  (concat (map (\<lambda>x. enc q x @ [c]) (x # fl)) @ rest) =
        readLoop c q False False col (length d) d fb ln (enc q x @ ?rest)" by simp
  also note 1
  also have "readLoop c q False (is_quoted x) (loopColumn col (enc q x)) (length d) (d @ text_of x) fb
         (ln + count_list (text_of x) LF) ?rest
     = readLoop c q False False (loopColumn (loopColumn col (enc q x)) [c]) (length (d @ text_of x))
         (d @ text_of x) (fb @ [length d, length (d @ text_of x)]) (ln + count_list (text_of x) LF)
         (?tail @ rest)"
    by (rule readLoop_comma [OF cl])
  also note 2
  finally show ?case by (simp add: add.assoc loopColumn_append)
qed

lemma buildRecord_Cons: "buildRecord (s # e # fb) d = slice d s e # buildRecord fb d"
proof -
  have "[0..<Suc (length fb div 2)] = 0 # [Suc 0..<Suc (length fb div 2)]"
    by (rule upt_conv_Cons) simp
  also have "\<dots> = 0 # map Suc [0..<length fb div 2]"
    by (simp only: map_Suc_upt)
  finally show ?thesis by (simp add: buildRecord_def comp_def del: upt_Suc)
qed

lemma buildRecord_Nil: "buildRecord [] d = []"
  by (simp add: buildRecord_def)

lemma buildRecord_bounds:
  "buildRecord (boundsOf (length pre) ts) (pre @ concat ts @ post) = ts"
proof (induction ts arbitrary: pre)
  case Nil
  show ?case by (simp add: buildRecord_Nil)
next
  case (Cons t ts)
  from Cons.IH [of "pre @ t"] show ?case
    by (simp add: buildRecord_Cons slice_def)
qed

lemma encRecord_snoc:
  "encRecord c q (fl @ [x]) = concat (map (\<lambda>x. enc q x @ [c]) fl) @ enc q x"
  by (induction c q fl rule: encRecord.induct) auto

lemma Read_unfold:
  "src r = Some bytes \<Longrightarrow> \<not> finished r \<Longrightarrow>
   Read r = (case readLoop (comma_of r) (quote_of r) False False 1 0 [] [] (line r) bytes of
               (res, rest, ln, fin) \<Rightarrow> (res, r\<lparr> src := Some rest, line := ln, finished := fin \<rparr>))"
  by (simp add: Read_def comma_of_def quote_of_def Let_def split: prod.splits)

lemma Read_finished: "finished r \<or> src r = None \<Longrightarrow> Read r = (Inl EOF, r)"
  by (auto simp: Read_def split: option.splits)

lemma readLoop_record:
  assumes "sane c q" "list_all (wellformed c q) (fl @ [x])" "rest = [] \<or> hd rest \<noteq> q"
  shows "readLoop c q False False 1 0 [] [] ln (encRecord c q (fl @ [x]) @ rest) =
           readLoop c q False (is_quoted x) (loopColumn 1 (encRecord c q (fl @ [x])))
             (length (concat (map text_of fl)))
             (concat (map text_of (fl @ [x]))) (boundsOf 0 (map text_of fl))
             (ln + count_list (concat (map text_of (fl @ [x]))) LF) rest"
proof -
  from assms(2) have wfl: "list_all (wellformed c q) fl" and wx: "wellformed c q x" by auto
  let ?pre = "concat (map (\<lambda>x. enc q x @ [c]) fl)"
  from readLoop_fields [OF assms(1) wfl, of 1 "[]" "[]" ln "enc q x @ rest"]
  have 1: "readLoop c q False False 1 0 [] [] ln (?pre @ enc q x @ rest) =
     readLoop c q False False (loopColumn 1 ?pre) (length (concat (map text_of fl)))
       (concat (map text_of fl)) (boundsOf 0 (map text_of fl)) (ln + count_list (concat (map text_of fl)) LF)
       (enc q x @ rest)"
    by simp
  note 2 = readLoop_field [OF assms(1) wx assms(3), of "loopColumn 1 ?pre" "concat (map text_of fl)"
       "boundsOf 0 (map text_of fl)" "ln + count_list (concat (map text_of fl)) LF"]
  from 1 2 show ?thesis by (simp add: encRecord_snoc add.assoc loopColumn_append)
qed

lemma buildRecord_record:
  "buildRecord (boundsOf 0 (map text_of fl) @
      [length (concat (map text_of fl)), length (concat (map text_of (fl @ [x])))])
     (concat (map text_of (fl @ [x]))) = map text_of (fl @ [x])"
proof -
  have "boundsOf 0 (map text_of (fl @ [x])) = boundsOf 0 (map text_of fl) @
      [length (concat (map text_of fl)), length (concat (map text_of (fl @ [x])))]"
    using boundsOf_append [of 0 "map text_of fl" "text_of x"] by simp
  moreover have "buildRecord (boundsOf (length ([]::string)) (map text_of (fl @ [x])))
      ([] @ concat (map text_of (fl @ [x])) @ []) = map text_of (fl @ [x])"
    by (rule buildRecord_bounds)
  ultimately show ?thesis by simp
qed

text \<open>What the loop does with a well-formed record followed by a line ending or by the end of
  the input.\<close>

lemma readLoop_record_LF:
  assumes "sane c q" "flds \<noteq> []" "list_all (wellformed c q) flds"
  shows "readLoop c q False False 1 0 [] [] ln (encRecord c q flds @ LF # rest) =
           (Inr (map text_of flds), rest, ln + count_list (concat (map text_of flds)) LF + 1, False)"
proof -
  from assms(2) obtain fl x where f: "flds = fl @ [x]" by (cases flds rule: rev_cases) auto
  from assms(1) have "LF # rest = [] \<or> hd (LF # rest) \<noteq> q" by (auto simp: sane_def)
  from readLoop_record [OF assms(1) assms(3) [unfolded f] this, of ln] assms(1)
  show ?thesis unfolding f using buildRecord_record [of fl x]
    by (auto simp: sane_def)
qed

lemma readLoop_record_CR:
  assumes "sane c q" "flds \<noteq> []" "list_all (wellformed c q) flds"
  shows "readLoop c q False False 1 0 [] [] ln (encRecord c q flds @ CR # rest) =
           (Inr (map text_of flds),
            (case rest of [] \<Rightarrow> rest | nxt # rest' \<Rightarrow> if nxt = LF then rest' else rest),
            ln + count_list (concat (map text_of flds)) LF + 1, False)"
proof -
  from assms(2) obtain fl x where f: "flds = fl @ [x]" by (cases flds rule: rev_cases) auto
  from assms(1) have "CR # rest = [] \<or> hd (CR # rest) \<noteq> q" by (auto simp: sane_def)
  from readLoop_record [OF assms(1) assms(3) [unfolded f] this, of ln] assms(1)
  show ?thesis unfolding f using buildRecord_record [of fl x]
    by (auto simp: sane_def)
qed

lemma encRecord_empty_iff:
  "encRecord c q (fl @ [x]) = [] \<longleftrightarrow> fl = [] \<and> text_of x = [] \<and> \<not> is_quoted x"
  by (cases x) (auto simp: encRecord_snoc)

lemma boundsOf_Nil_iff: "boundsOf k ts = [] \<longleftrightarrow> ts = []"
  by (cases ts) auto

lemma readLoop_record_EOF:
  assumes "sane c q" "flds \<noteq> []" "list_all (wellformed c q) flds" "encRecord c q flds \<noteq> []"
  shows "readLoop c q False False 1 0 [] [] ln (encRecord c q flds) =
           (Inr (map text_of flds), [], ln + count_list (concat (map text_of flds)) LF, True)"
proof -
  from assms(2) obtain fl x where f: "flds = fl @ [x]" by (cases flds rule: rev_cases) auto
  from assms(4) f have ne: "fl \<noteq> [] \<or> text_of x \<noteq> [] \<or> is_quoted x"
    by (simp add: encRecord_empty_iff)
  from readLoop_record [OF assms(1) assms(3) [unfolded f], of "[]" ln]
  show ?thesis unfolding f using buildRecord_record [of fl x] ne
    by (auto simp: boundsOf_Nil_iff)
qed

lemma readLoop_sets_finished:
  "readLoop c q iq sq col fs0 d fb ln bytes = (Inl e, rest, ln', fin) \<Longrightarrow>
   e = EOF \<or> (\<exists>l k. e = ParseError l k ErrUnterminatedQuote) \<Longrightarrow> fin"
  by (induction c q iq sq col fs0 d fb ln bytes rule: readLoop.induct)
     (auto simp: wrapError_def split: if_splits list.splits)

lemma readLoop_line_mono:
  "readLoop c q iq sq col fs0 d fb ln bytes = (res, rest, ln', fin) \<Longrightarrow> ln \<le> ln'"
proof (induction c q iq sq col fs0 d fb ln bytes rule: readLoop.induct)
  case (1 comma quote inQuotes sawQuotedField column fs1 dataBuf fieldBounds ln)
  then show ?case by (auto split: if_splits)
next
  case (2 comma quote inQuotes sawQuotedField column fs1 dataBuf fieldBounds ln b rest')
  note p = "2.prems"
  show ?case
  proof (cases inQuotes)
    case True
    show ?thesis
    proof (cases "b = quote")
      case bq: True
      show ?thesis
      proof (cases rest')
        case Nil
        with p True bq "2.IH"(1) show ?thesis by simp
      next
        case (Cons nxt rest'')
        show ?thesis
        proof (cases "nxt = quote")
          case nq: True
          with p True bq Cons "2.IH"(2) show ?thesis by simp
        next
          case nq: False
          with p True bq Cons "2.IH"(3) show ?thesis by simp
        qed
      qed
    next
      case False
      show ?thesis
      proof (cases "b = LF")
        case lf: True
        from p True False lf
        have "readLoop comma quote inQuotes sawQuotedField 1 fs1 (dataBuf @ [b]) fieldBounds (ln + 1) rest'
           = (res, rest, ln', fin)" by simp
        from "2.IH"(4) [OF True False lf this] show ?thesis by simp
      next
        case nlf: False
        from p True False nlf
        have "readLoop comma quote inQuotes sawQuotedField (column + 1) fs1 (dataBuf @ [b]) fieldBounds ln rest'
           = (res, rest, ln', fin)" by simp
        from "2.IH"(5) [OF True False nlf this] show ?thesis by simp
      qed
    qed
  next
    case False
    show ?thesis
    proof (cases "b = comma")
      case True
      with p False "2.IH"(6) show ?thesis by simp
    next
      case nc: False
      show ?thesis
      proof (cases "b = LF")
        case True
        with p False nc show ?thesis by auto
      next
        case nlf: False
        show ?thesis
        proof (cases "b = CR")
          case True
          with p False nc nlf show ?thesis by auto
        next
          case ncr: False
          show ?thesis
          proof (cases "b = quote")
            case True
            show ?thesis
            proof (cases "length dataBuf = fs1 \<and> \<not> sawQuotedField")
              case t: True
              with p False nc nlf ncr True "2.IH"(7) show ?thesis by simp
            next
              case f: False
              with p False nc nlf ncr True show ?thesis by auto
            qed
          next
            case nq: False
            with p False nc nlf ncr "2.IH"(8) show ?thesis by simp
          qed
        qed
      qed
    qed
  qed
qed

lemma readLoop_error_location:
  "readLoop c q iq sq col fs0 d fb ln bytes = (Inl e, rest, ln', fin) \<Longrightarrow> 0 < col \<Longrightarrow>
   e = EOF \<or> (\<exists>col' k. e = ParseError ln' col' k \<and> 0 < col')"
proof (induction c q iq sq col fs0 d fb ln bytes rule: readLoop.induct)
  case (1 comma quote inQuotes sawQuotedField column fs1 dataBuf fieldBounds ln)
  then show ?case by (auto simp: wrapError_def split: if_splits)
next
  case (2 comma quote inQuotes sawQuotedField column fs1 dataBuf fieldBounds ln b rest')
  show ?case
  proof (cases inQuotes)
    case True
    show ?thesis
    proof (cases "b = quote")
      case bq: True
      show ?thesis
      proof (cases rest')
        case Nil
        with 2 True bq show ?thesis by simp
      next
        case (Cons nxt rest'')
        with 2 True bq show ?thesis by (cases "nxt = quote") simp_all
      qed
    next
      case False
      with 2 True show ?thesis by (cases "b = LF") simp_all
    qed
  next
    case False
    show ?thesis
    proof (cases "b = comma")
      case True
      with 2 False show ?thesis by simp
    next
      case nc: False
      show ?thesis
      proof (cases "b = LF")
        case True
        with "2.prems" False nc show ?thesis by auto
      next
        case nlf: False
        show ?thesis
        proof (cases "b = CR")
          case True
          with "2.prems" False nc nlf show ?thesis by auto
        next
          case ncr: False
          show ?thesis
          proof (cases "b = quote")
            case True
            show ?thesis
            proof (cases "length dataBuf = fs1 \<and> \<not> sawQuotedField")
              case t: True
              with 2 False nc nlf ncr True show ?thesis by simp
            next
              case f: False
              with "2.prems" False nc nlf ncr True show ?thesis
                by (auto simp: wrapError_def)
            qed
          next
            case nq: False
            with 2 False nc nlf ncr show ?thesis by simp
          qed
        qed
      qed
    qed
  qed
qed

section \<open>A well-formed record read by the streaming reader\<close>

lemma Read_record_LF:
  assumes "src r = Some (encRecord (comma_of r) (quote_of r) flds @ LF # rest)" and "\<not> finished r"
    and "sane (comma_of r) (quote_of r)"
    and "flds \<noteq> []" and "list_all (wellformed (comma_of r) (quote_of r)) flds"
  shows "Read r = (Inr (map text_of flds),
                   r\<lparr> src := Some rest,
                      line := line r + count_list (concat (map text_of flds)) LF + 1 \<rparr>)"
  using readLoop_record_LF [OF assms(3,4,5), of "line r" rest] assms(1,2)
  by (simp add: Read_unfold)

lemma Read_record_CR:
  assumes "src r = Some (encRecord (comma_of r) (quote_of r) flds @ CR # rest)" and "\<not> finished r"
    and "sane (comma_of r) (quote_of r)"
    and "flds \<noteq> []" and "list_all (wellformed (comma_of r) (quote_of r)) flds"
  shows "Read r = (Inr (map text_of flds),
                   r\<lparr> src := Some (case rest of [] \<Rightarrow> rest
                                     | nxt # rest' \<Rightarrow> if nxt = LF then rest' else rest),
                      line := line r + count_list (concat (map text_of flds)) LF + 1 \<rparr>)"
  using readLoop_record_CR [OF assms(3,4,5), of "line r" rest] assms(1,2)
  by (simp add: Read_unfold)

lemma Read_record_EOF:
  assumes "src r = Some (encRecord (comma_of r) (quote_of r) flds)" and "\<not> finished r"
    and "sane (comma_of r) (quote_of r)"
    and "flds \<noteq> []" and "list_all (wellformed (comma_of r) (quote_of r)) flds"
    and "encRecord (comma_of r) (quote_of r) flds \<noteq> []"
  shows "Read r = (Inr (map text_of flds),
                   r\<lparr> src := Some [], line := line r + count_list (concat (map text_of flds)) LF,
                      finished := True \<rparr>)"
  using readLoop_record_EOF [OF assms(3,4,5,6), of "line r"] assms(1,2)
  by (simp add: Read_unfold)

lemma NewReader_sane: "sane (comma_of (NewReader bytes)) (quote_of (NewReader bytes))"
  by (simp add: comma_of_def quote_of_def NewReader_def sane_def)

lemma NewReader_comma_quote:
  "comma_of (NewReader bytes) = COMMA" "quote_of (NewReader bytes) = DQ"
  by (simp_all add: comma_of_def quote_of_def NewReader_def)

section \<open>Lemmas on the line-based reader\<close>

lemma char_of_44: "char_of (44::int) = COMMA"
  by (simp add: char_of_def)

lemma char_of_35: "char_of (35::int) = CHR 0x23"
  by (simp add: char_of_def)

lemma readLineLoop_empty: "readLineLoop ln [] = (Inl EOF, [])"
  by (simp add: readLineLoop.simps [of ln "[]"] ReadLine_empty)

lemma Read_line_at_end: "l_src lr = [] \<Longrightarrow> Read_line lr = (Inl EOF, lr)"
  by (subst Read_line.simps) (simp add: readLine_def readLineLoop_empty)

text \<open>A line that ends with LF, of any length: the pieces add up to the line without a CR at
  its end.\<close>

lemma ReadSlice_LF_near:
  assumes "LF \<notin> set l" "length l < n"
  shows "ReadSlice n (l @ LF # rest) = (l @ [LF], NoErr, rest)"
proof -
  from assms(2) have t: "take n (l @ LF # rest) = l @ take (n - length l) (LF # rest)"
    and "0 < n - length l" by simp_all
  then obtain m where m: "n - length l = Suc m" by (cases "n - length l") auto
  with t have t': "take n (l @ LF # rest) = l @ LF # take m rest" by simp
  from assms(1) have tw: "takeWhile (\<lambda>c. c \<noteq> LF) (l @ LF # take m rest) = l"
    by (subst takeWhile_append2) auto
  show ?thesis unfolding ReadSlice_def Let_def t' tw by simp
qed

lemma ReadSlice_LF_far:
  assumes "LF \<notin> set l" "n \<le> length l"
  shows "ReadSlice n (l @ LF # rest) = (take n l, ErrBufferFull, drop n l @ LF # rest)"
proof -
  from assms(2) have t: "take n (l @ LF # rest) = take n l" by simp
  from assms(1) have "LF \<notin> set (take n l)" by (auto dest: in_set_takeD)
  with assms(2) show ?thesis unfolding ReadSlice_def Let_def t by simp
qed

lemma ReadLine_LF_near:
  assumes "LF \<notin> set l" "length l < defaultBufSize"
  shows "ReadLine (l @ LF # rest) =
           (if l \<noteq> [] \<and> last l = CR then butlast l else l, False, NoErr, rest)"
proof (cases "l = []")
  case True
  with assms show ?thesis by (simp add: ReadLine_def ReadSlice_LF_near [of "[]", simplified])
next
  case False
  then have "(l @ [LF]) ! (length l - Suc 0) = last l"
    by (simp add: nth_append last_conv_nth)
  with False show ?thesis
    by (simp add: ReadLine_def ReadSlice_LF_near [OF assms] butlast_conv_take)
qed

lemma readLineLoop_LF:
  "LF \<notin> set l \<Longrightarrow>
   readLineLoop ln (l @ LF # rest) =
     (Inr (ln @ (if l \<noteq> [] \<and> last l = CR then butlast l else l)), rest)"
proof (induction l arbitrary: ln rule: length_induct)
  case (1 l)
  show ?case
  proof (cases "length l < defaultBufSize")
    case True
    then show ?thesis
      by (simp add: readLineLoop.simps [of ln "l @ LF # rest"] ReadLine_LF_near [OF "1.prems"])
  next
    case False
    then have ge: "defaultBufSize \<le> length l" by simp
    have pos: "0 < defaultBufSize" by (simp add: defaultBufSize_def)
    note rs = ReadSlice_LF_far [OF "1.prems" ge, of rest]
    from ge pos have tne: "take defaultBufSize l \<noteq> []" by auto
    show ?thesis
    proof (cases "last (take defaultBufSize l) = CR")
      case cr: True
      let ?k = "defaultBufSize - 1"
      let ?l' = "drop ?k l"
      from ge pos have lk: "?k < length l" by simp
      have bl: "butlast (take defaultBufSize l) = take ?k l"
        using ge by (simp add: butlast_take)
      from cr tne ge pos have "l ! ?k = CR"
        by (simp add: last_conv_nth min_absorb2)
      with lk have d: "CR # drop defaultBufSize l = ?l'"
        using Cons_nth_drop_Suc [of ?k l] pos by simp
      have "ReadLine (l @ LF # rest) =
              (take ?k l, True, NoErr, (CR # drop defaultBufSize l) @ LF # rest)"
        using cr tne by (simp add: ReadLine_def rs bl)
      then have rl: "ReadLine (l @ LF # rest) = (take ?k l, True, NoErr, ?l' @ LF # rest)"
        by (simp only: d)
      from lk pos have shorter: "length ?l' < length l" by (simp add: defaultBufSize_def)
      from "1.prems" have nl: "LF \<notin> set ?l'" by (auto dest: in_set_dropD)
      from lk have ne: "?l' \<noteq> []" by simp
      from "1.IH" shorter nl
      have ih: "readLineLoop (ln @ take ?k l) (?l' @ LF # rest) =
          (Inr ((ln @ take ?k l) @ (if ?l' \<noteq> [] \<and> last ?l' = CR then butlast ?l' else ?l')), rest)"
        by blast
      from lk have last_eq: "last ?l' = last l" by simp
      have bt: "take ?k l @ butlast ?l' = butlast l"
        by (metis append_take_drop_id butlast_append ne)
      have "l \<noteq> []" using lk by auto
      with ih ne last_eq bt show ?thesis
        by (simp add: readLineLoop.simps [of ln "l @ LF # rest"] rl)
    next
      case ncr: False
      let ?l' = "drop defaultBufSize l"
      have rl: "ReadLine (l @ LF # rest) = (take defaultBufSize l, True, NoErr, ?l' @ LF # rest)"
        using ncr by (simp add: ReadLine_def rs)
      from ge pos have shorter: "length ?l' < length l" by simp
      from "1.prems" have nl: "LF \<notin> set ?l'" by (auto dest: in_set_dropD)
      from "1.IH" shorter nl
      have ih: "readLineLoop (ln @ take defaultBufSize l) (?l' @ LF # rest) =
          (Inr ((ln @ take defaultBufSize l) @
                (if ?l' \<noteq> [] \<and> last ?l' = CR then butlast ?l' else ?l')), rest)"
        by blast
      have "take defaultBufSize l @ (if ?l' \<noteq> [] \<and> last ?l' = CR then butlast ?l' else ?l')
          = (if l \<noteq> [] \<and> last l = CR then butlast l else l)"
      proof (cases "?l' = []")
        case True
        then have "take defaultBufSize l = l" by simp
        with ncr True show ?thesis by simp
      next
        case False
        then have "last ?l' = last l" by simp
        moreover have "take defaultBufSize l @ butlast ?l' = butlast l"
          by (metis False append_take_drop_id butlast_append)
        moreover have "l \<noteq> []" using False by auto
        ultimately show ?thesis using False by simp
      qed
      with ih show ?thesis
        by (simp add: readLineLoop.simps [of ln "l @ LF # rest"] rl)
    qed
  qed
qed

lemma readLine_LF:
  assumes "l_src r = l @ LF # rest" "LF \<notin> set l"
  shows "readLine r = (Inr (if l \<noteq> [] \<and> last l = CR then butlast l else l),
                       r\<lparr> l_src := rest, l_numLine := l_numLine r + 1 \<rparr>)"
  using readLineLoop_LF [OF assms(2), of "[]" rest] assms(1)
  by (simp add: readLine_def)

text \<open>Input without LF: the last line, or \<open>io.EOF\<close> with the bytes dropped.\<close>

lemma ReadSlice_no_LF:
  "LF \<notin> set bytes \<Longrightarrow>
   ReadSlice n bytes = (if n \<le> length bytes then (take n bytes, ErrBufferFull, drop n bytes)
                        else (bytes, SliceEOF, []))"
  by (auto simp: ReadSlice_def Let_def dest: in_set_takeD)

lemma readLineLoop_no_LF:
  "LF \<notin> set bytes \<Longrightarrow> readLineLoop ln bytes = (res, rest) \<Longrightarrow>
   rest = [] \<and> (res = Inl EOF \<or> res = Inr (ln @ bytes))"
proof (induction ln bytes rule: readLineLoop.induct)
  case (1 ln bytes)
  note rs = ReadSlice_no_LF [OF "1.prems"(1), of defaultBufSize]
  have pos: "0 < defaultBufSize" by (simp add: defaultBufSize_def)
  show ?case
  proof (cases "defaultBufSize \<le> length bytes")
    case False
    have "bytes \<noteq> [] \<Longrightarrow> last bytes \<noteq> LF"
    proof
      assume "bytes \<noteq> []" "last bytes = LF"
      then have "LF \<in> set bytes" using last_in_set [of bytes] by simp
      with "1.prems"(1) show False by simp
    qed
    with False "1.prems"(2) rs show ?thesis
      by (auto simp: readLineLoop.simps [of ln bytes] ReadLine_def split: if_splits)
  next
    case True
    then have tne: "take defaultBufSize bytes \<noteq> []" using pos by auto
    show ?thesis
    proof (cases "last (take defaultBufSize bytes) = CR")
      case cr: True
      let ?k = "defaultBufSize - 1"
      from True pos have lk: "?k < length bytes" by simp
      have bl: "butlast (take defaultBufSize bytes) = take ?k bytes"
        using True by (simp add: butlast_take)
      from cr tne True pos have "bytes ! ?k = CR"
        by (simp add: last_conv_nth min_absorb2)
      with lk have d: "CR # drop defaultBufSize bytes = drop ?k bytes"
        using Cons_nth_drop_Suc [of ?k bytes] pos by simp
      have rl: "ReadLine bytes = (take ?k bytes, True, NoErr, CR # drop defaultBufSize bytes)"
        using cr tne True by (simp add: ReadLine_def rs bl)
      from "1.prems"(1) have nl: "LF \<notin> set (CR # drop defaultBufSize bytes)"
        by (auto dest: in_set_dropD)
      from "1.prems"(2) rl
      have "readLineLoop (ln @ take ?k bytes) (CR # drop defaultBufSize bytes) = (res, rest)"
        by (simp add: readLineLoop.simps [of ln bytes])
      from "1.IH" [OF refl rl [symmetric] refl refl _ _ nl this]
      have "rest = [] \<and> (res = Inl EOF \<or>
              res = Inr ((ln @ take ?k bytes) @ CR # drop defaultBufSize bytes))" by simp
      then show ?thesis by (simp add: d)
    next
      case ncr: False
      have rl: "ReadLine bytes = (take defaultBufSize bytes, True, NoErr, drop defaultBufSize bytes)"
        using ncr True by (simp add: ReadLine_def rs)
      from "1.prems"(1) have nl: "LF \<notin> set (drop defaultBufSize bytes)"
        by (auto dest: in_set_dropD)
      from "1.prems"(2) rl
      have "readLineLoop (ln @ take defaultBufSize bytes) (drop defaultBufSize bytes) = (res, rest)"
        by (simp add: readLineLoop.simps [of ln bytes])
      from "1.IH" [OF refl rl [symmetric] refl refl _ _ nl this]
      show ?thesis by simp
    qed
  qed
qed

lemma readLineLoop_full_buffer:
  assumes "length bytes = defaultBufSize" "LF \<notin> set bytes" "last bytes \<noteq> CR"
  shows "readLineLoop [] bytes = (Inl EOF, [])"
proof -
  from assms have "ReadLine bytes = (bytes, True, NoErr, [])"
    by (simp add: ReadLine_def ReadSlice_no_LF)
  then show ?thesis
    by (simp add: readLineLoop.simps [of "[]" bytes] readLineLoop_empty)
qed

text \<open>\<open>TrimSpace\<close> on ASCII white space\<close>

lemma leadingSpace_blank: "blankByte b \<Longrightarrow> leadingSpace (b # s) = Some [b]"
  unfolding blankByte_def
  by (elim disjE) (simp_all add: leadingSpace_def spaceRunes_def)

lemma trailingSpace_blank: "blankByte b \<Longrightarrow> trailingSpace (s @ [b]) = Some [b]"
  unfolding blankByte_def
  by (elim disjE) (simp_all add: trailingSpace_def spaceRunes_def)

lemma spaceRunes_first:
  "p \<in> set spaceRunes \<Longrightarrow> p \<noteq> [] \<and>
     (hd p = LF \<or> blankByte (hd p) \<or> (128::nat) \<le> of_char (hd p))"
  unfolding spaceRunes_def blankByte_def by auto

lemma spaceRunes_last:
  "p \<in> set spaceRunes \<Longrightarrow> p \<noteq> [] \<and>
     (last p = LF \<or> blankByte (last p) \<or> (128::nat) \<le> of_char (last p))"
  unfolding spaceRunes_def blankByte_def by auto

lemma leadingSpace_visible: "visibleByte b \<Longrightarrow> leadingSpace (b # s) = None"
proof (rule ccontr)
  assume v: "visibleByte b" and "leadingSpace (b # s) \<noteq> None"
  then obtain p where p: "leadingSpace (b # s) = Some p" by auto
  then have "p \<in> set spaceRunes" and t: "take (length p) (b # s) = p"
    by (auto simp: leadingSpace_def find_Some_iff)
  then have ne: "p \<noteq> []" and h: "hd p = LF \<or> blankByte (hd p) \<or> (128::nat) \<le> of_char (hd p)"
    by (auto dest: spaceRunes_first)
  from ne t have "hd p = b" by (cases p) auto
  with h v show False by (auto simp: visibleByte_def)
qed

lemma trailingSpace_visible: "visibleByte b \<Longrightarrow> trailingSpace (s @ [b]) = None"
proof (rule ccontr)
  assume v: "visibleByte b" and "trailingSpace (s @ [b]) \<noteq> None"
  then obtain p where p: "trailingSpace (s @ [b]) = Some p" by auto
  then have "p \<in> set spaceRunes"
    and t: "drop (length (s @ [b]) - length p) (s @ [b]) = p"
    by (auto simp: trailingSpace_def find_Some_iff)
  then have ne: "p \<noteq> []" and h: "last p = LF \<or> blankByte (last p) \<or> (128::nat) \<le> of_char (last p)"
    by (auto dest: spaceRunes_last)
  from ne t have "last p = last (s @ [b])"
    by (metis last_drop drop_eq_Nil not_le)
  with h v show False by (auto simp: visibleByte_def)
qed

lemma TrimLeft_blank: "list_all blankByte ws \<Longrightarrow> TrimLeft (ws @ s) = TrimLeft s"
proof (induction ws)
  case Nil
  show ?case by simp
next
  case (Cons b ws)
  then have ls: "leadingSpace (b # ws @ s) = Some [b]" by (simp add: leadingSpace_blank)
  have "TrimLeft (b # ws @ s) = TrimLeft (ws @ s)"
    by (subst TrimLeft.simps) (simp add: ls)
  with Cons show ?case by simp
qed

lemma TrimLeft_visible: "visibleByte b \<Longrightarrow> TrimLeft (b # s) = b # s"
  by (subst TrimLeft.simps) (simp add: leadingSpace_visible)

lemma TrimLeft_Nil: "TrimLeft [] = []"
  by (subst TrimLeft.simps) (simp add: leadingSpace_def spaceRunes_def)

lemma TrimRight_Nil: "TrimRight [] = []"
  by (subst TrimRight.simps) (simp add: trailingSpace_def spaceRunes_def)

lemma TrimRight_blank: "list_all blankByte ws \<Longrightarrow> TrimRight (s @ ws) = TrimRight s"
proof (induction ws rule: rev_induct)
  case Nil
  show ?case by simp
next
  case (snoc b ws)
  then have ts: "trailingSpace (s @ ws @ [b]) = Some [b]"
    using trailingSpace_blank [of b "s @ ws"] by simp
  have "TrimRight (s @ ws @ [b]) = TrimRight (s @ ws)"
    by (subst TrimRight.simps) (simp add: ts)
  with snoc show ?case by simp
qed

lemma TrimRight_visible: "visibleByte b \<Longrightarrow> TrimRight (s @ [b]) = s @ [b]"
  by (subst TrimRight.simps) (simp add: trailingSpace_visible)

lemma TrimSpace_blank: "list_all blankByte ws \<Longrightarrow> TrimSpace ws = []"
  using TrimLeft_blank [of ws "[]"] by (simp add: TrimSpace_def TrimLeft_Nil TrimRight_Nil)

lemma TrimSpace_padded:
  assumes "list_all blankByte ws1" "list_all blankByte ws2"
    and "body \<noteq> []" "visibleByte (hd body)" "visibleByte (last body)"
  shows "TrimSpace (ws1 @ body @ ws2) = body"
proof -
  from assms(3) obtain b s where b: "body = b # s" by (cases body) auto
  from assms(3) obtain s' b' where b': "body = s' @ [b']" by (cases body rule: rev_cases) auto
  have "TrimLeft (ws1 @ body @ ws2) = TrimLeft (body @ ws2)"
    by (rule TrimLeft_blank [OF assms(1)])
  also have "\<dots> = body @ ws2" using assms(4) b TrimLeft_visible [of b "s @ ws2"] by simp
  finally have "TrimSpace (ws1 @ body @ ws2) = TrimRight (body @ ws2)"
    by (simp add: TrimSpace_def)
  also have "\<dots> = TrimRight body" by (rule TrimRight_blank [OF assms(2)])
  also have "\<dots> = body" using assms(5) b' TrimRight_visible [of b' s'] by simp
  finally show ?thesis .
qed

text \<open>\<open>Read\<close> of the line-based reader on a line that ends with LF\<close>

lemma stripCR_blank:
  "list_all blankByte ws \<Longrightarrow> list_all blankByte (if ws \<noteq> [] \<and> last ws = CR then butlast ws else ws)"
  by (auto simp: list_all_iff dest: in_set_butlastD)

lemma Read_line_skips_blank:
  assumes "l_src r = ws @ LF # rest" "list_all blankByte ws"
  shows "Read_line r = Read_line (r\<lparr> l_src := rest, l_numLine := l_numLine r + 1 \<rparr>)"
proof -
  from assms(2) have nl: "LF \<notin> set ws" by (auto simp: list_all_iff blankByte_def)
  note rl = readLine_LF [OF assms(1) nl]
  from stripCR_blank [OF assms(2)]
  have "TrimSpace (if ws \<noteq> [] \<and> last ws = CR then butlast ws else ws) = []"
    by (rule TrimSpace_blank)
  then show ?thesis by (subst Read_line.simps) (simp add: rl)
qed

section \<open>The claims\<close>

text \<open>
  C9.  Once \<open>Read\<close> of the streaming reader has returned \<open>io.EOF\<close> or a \<open>ParseError\<close> with
  \<open>ErrUnterminatedQuote\<close>, the reader is finished: each later call, however many calls \<open>n\<close>
  came in between, returns \<open>io.EOF\<close> with no record and leaves the reader, and so its unread
  bytes, as they were.
\<close>

theorem exhausted_reader_stays_exhausted:
  assumes "Read r = (Inl e, r')"
    and "e = EOF \<or> (\<exists>l k. e = ParseError l k ErrUnterminatedQuote)"
  shows "Read (afterReads n r') = (Inl EOF, r')"
proof -
  have fin: "finished r' \<or> src r' = None"
  proof (cases "src r")
    case None
    with assms(1) show ?thesis by (auto simp: Read_def)
  next
    case (Some bytes)
    show ?thesis
    proof (cases "finished r")
      case True
      with assms(1) Some show ?thesis by (auto simp: Read_def)
    next
      case False
      obtain res rest ln fin where
        l: "readLoop (comma_of r) (quote_of r) False False 1 0 [] [] (line r) bytes = (res, rest, ln, fin)"
        by (metis prod_cases4)
      with assms(1) Some False have "res = Inl e" and r': "r' = r\<lparr> src := Some rest, line := ln, finished := fin \<rparr>"
        by (auto simp: Read_unfold)
      with l assms(2) have fin by (auto dest: readLoop_sets_finished)
      with r' show ?thesis by simp
    qed
  qed
  then have 1: "Read r' = (Inl EOF, r')" by (rule Read_finished)
  have "afterReads n r' = r'" by (induction n) (simp_all add: 1)
  with 1 show ?thesis by simp
qed

theorem exhausted_reader_stays_exhausted_witness:
  "Read (NewReader (DQ # ''abc'')) =
     (Inl (ParseError 1 5 ErrUnterminatedQuote),
      (NewReader [])\<lparr> finished := True \<rparr>) \<and>
   Read (afterReads 3 ((NewReader [])\<lparr> finished := True \<rparr>)) =
     (Inl EOF, (NewReader [])\<lparr> finished := True \<rparr>)"
proof -
  have 1: "Read (NewReader (DQ # ''abc'')) =
     (Inl (ParseError 1 5 ErrUnterminatedQuote), (NewReader [])\<lparr> finished := True \<rparr>)"
    by (simp add: Read_def NewReader_def wrapError_def)
  from exhausted_reader_stays_exhausted [OF 1, of 3] 1 show ?thesis by simp
qed

text \<open>
  In the streaming reader the claim holds: when the input ends after a well-formed last
  record with no line ending, of which at least one byte was read, \<open>Read\<close> returns that
  record, and the call after it returns \<open>io.EOF\<close> and leaves the reader as it is.
\<close>

lemma streaming_final_record_then_EOF:
  assumes "src r = Some (encRecord (comma_of r) (quote_of r) flds)" and "\<not> finished r"
    and "sane (comma_of r) (quote_of r)"
    and "flds \<noteq> []" and "list_all (wellformed (comma_of r) (quote_of r)) flds"
    and "encRecord (comma_of r) (quote_of r) flds \<noteq> []"
  shows "\<exists>r'. Read r = (Inr (map text_of flds), r') \<and> Read r' = (Inl EOF, r')"
proof -
  let ?r' = "r\<lparr> src := Some [], line := line r + count_list (concat (map text_of flds)) LF,
                 finished := True \<rparr>"
  have "Read r = (Inr (map text_of flds), ?r')"
    using assms by (rule Read_record_EOF)
  moreover have "Read ?r' = (Inl EOF, ?r')" by (rule Read_finished) simp
  ultimately show ?thesis by blast
qed

text \<open>
  C5.  The line-based reader of \<open>csvc.go\<close> loses a last record without line ending whose
  length is the size of the \<open>bufio\<close> buffer: \<open>ReadLine\<close> hands the 4096 bytes over as a prefix,
  the next \<open>ReadLine\<close> gives \<open>io.EOF\<close>, and \<open>readLine\<close> returns that error without the bytes.
  So for 4096 bytes \<open>a\<close> the first \<open>Read\<close> returns \<open>io.EOF\<close> and no record.  The streaming
  reader returns the record and \<open>io.EOF\<close> on the call after it, as the claim says.
\<close>

theorem line_reader_drops_full_buffer_last_record:
  "Read_line (NewReader_line (replicate 4096 (CHR ''a''))) = (Inl EOF, NewReader_line []) \<and>
   Read (NewReader (replicate 4096 (CHR ''a''))) =
     (Inr [replicate 4096 (CHR ''a'')], (NewReader [])\<lparr> finished := True \<rparr>) \<and>
   Read ((NewReader [])\<lparr> finished := True \<rparr>) = (Inl EOF, (NewReader [])\<lparr> finished := True \<rparr>)"
proof (intro conjI)
  let ?bytes = "replicate 4096 (CHR ''a'')"
  have "readLineLoop [] ?bytes = (Inl EOF, [])"
    by (rule readLineLoop_full_buffer) (simp_all add: defaultBufSize_def)
  then have "readLine (NewReader_line ?bytes) = (Inl EOF, NewReader_line [])"
    by (simp add: readLine_def NewReader_line_def)
  then show "Read_line (NewReader_line ?bytes) = (Inl EOF, NewReader_line [])"
    by (subst Read_line.simps) simp
next
  let ?bytes = "replicate 4096 (CHR ''a'')"
  let ?r = "NewReader ?bytes"
  have 1: "src ?r = Some (encRecord (comma_of ?r) (quote_of ?r) [Bare ?bytes])"
    by (simp add: NewReader_def)
  have 2: "\<not> finished ?r" by (simp add: NewReader_def)
  have 5: "list_all (wellformed (comma_of ?r) (quote_of ?r)) [Bare ?bytes]"
    by (simp add: NewReader_comma_quote list_all_iff plain_def)
  have 6: "encRecord (comma_of ?r) (quote_of ?r) [Bare ?bytes] \<noteq> []" by simp
  have "count_list ?bytes LF = 0" by (simp add: count_list_0_iff)
  with Read_record_EOF [OF 1 2 NewReader_sane _ 5 6]
  show "Read ?r = (Inr [?bytes], (NewReader [])\<lparr> finished := True \<rparr>)"
    by (simp add: NewReader_def)
next
  show "Read ((NewReader [])\<lparr> finished := True \<rparr>) = (Inl EOF, (NewReader [])\<lparr> finished := True \<rparr>)"
    by (rule Read_finished) simp
qed

lemma readLoop_bare_quote:
  assumes "sane c q" "list_all (wellformed c q) fl" "list_all (plain c q) u" "u \<noteq> []"
  shows "readLoop c q False False 1 0 [] [] ln (encRecord c q (fl @ [Bare u]) @ q # rest) =
           (Inl (ParseError (ln + count_list (concat (map text_of fl)) LF)
                  (loopColumn 1 (encRecord c q (fl @ [Bare u]))) ErrBareQuote),
            rest, ln + count_list (concat (map text_of fl)) LF, False)"
proof -
  let ?pre = "concat (map (\<lambda>x. enc q x @ [c]) fl)"
  let ?D = "concat (map text_of fl)"
  from readLoop_fields [OF assms(1,2), of 1 "[]" "[]" ln "u @ q # rest"]
  have "readLoop c q False False 1 0 [] [] ln (?pre @ u @ q # rest) =
     readLoop c q False False (loopColumn 1 ?pre) (length ?D) ?D (boundsOf 0 (map text_of fl))
       (ln + count_list ?D LF) (u @ q # rest)"
    by simp
  also have "\<dots> = readLoop c q False False (loopColumn (loopColumn 1 ?pre) u) (length ?D) (?D @ u)
       (boundsOf 0 (map text_of fl)) (ln + count_list ?D LF) (q # rest)"
    by (rule readLoop_plain [OF assms(3)])
  also have "\<dots> = (Inl (ParseError (ln + count_list ?D LF)
                  (loopColumn (loopColumn 1 ?pre) u) ErrBareQuote),
            rest, ln + count_list ?D LF, False)"
  proof -
    from assms(1) have "q \<noteq> c" "q \<noteq> LF" "q \<noteq> CR" by (auto simp: sane_def)
    with assms(4) show ?thesis by (simp add: wrapError_def)
  qed
  finally show ?thesis by (simp add: encRecord_snoc loopColumn_append)
qed

lemma locate_noBareCR:
  "noBareCR bs \<Longrightarrow> locate ln col bs = (ln + count_list bs LF, loopColumn col bs)"
  by (induction bs arbitrary: ln col) auto

lemma count_list_escape: "q \<noteq> LF \<Longrightarrow> count_list (escape q f) LF = count_list f LF"
  by (induction f) auto

lemma count_list_enc: "q \<noteq> LF \<Longrightarrow> count_list (enc q x) LF = count_list (text_of x) LF"
  by (cases x) (auto simp: count_list_escape)

lemma count_list_encRecord:
  "sane c q \<Longrightarrow> count_list (encRecord c q flds) LF = count_list (concat (map text_of flds)) LF"
  by (induction c q flds rule: encRecord.induct) (auto simp: sane_def count_list_enc)

text \<open>
  C7.  The streaming reader is strict: a quote inside an unquoted field \<open>u\<close>, after any
  well-formed fields \<open>fl\<close>, makes \<open>Read\<close> return a \<open>ParseError\<close> with \<open>ErrBareQuote\<close>.  Its line
  and column are the 1-based line and column of that quote, counted from the reader's line
  and column 1 at the start of the call, when no bare CR lies before the quote in the record.
  Every error of \<open>Read\<close> other than \<open>io.EOF\<close> is a \<open>ParseError\<close> with the reader's line and a
  column of at least 1.
\<close>

theorem bare_quote_location:
  assumes "src r = Some (encRecord (comma_of r) (quote_of r) (fl @ [Bare u]) @ quote_of r # rest)"
    and "\<not> finished r" and "sane (comma_of r) (quote_of r)"
    and "list_all (wellformed (comma_of r) (quote_of r)) fl"
    and "list_all (plain (comma_of r) (quote_of r)) u" and "u \<noteq> []"
    and "noBareCR (encRecord (comma_of r) (quote_of r) (fl @ [Bare u]))"
  shows "Read r =
           (Inl (ParseError
                   (fst (locate (line r) 1 (encRecord (comma_of r) (quote_of r) (fl @ [Bare u]))))
                   (snd (locate (line r) 1 (encRecord (comma_of r) (quote_of r) (fl @ [Bare u]))))
                   ErrBareQuote),
            r\<lparr> src := Some rest,
               line := fst (locate (line r) 1 (encRecord (comma_of r) (quote_of r) (fl @ [Bare u]))) \<rparr>) \<and>
         (\<forall>r0 e r1. Read r0 = (Inl e, r1) \<and> e \<noteq> EOF \<longrightarrow>
            (\<exists>col k. e = ParseError (line r1) col k \<and> 0 < col \<and> line r0 \<le> line r1))"
proof (intro conjI allI impI)
  let ?P = "encRecord (comma_of r) (quote_of r) (fl @ [Bare u])"
  from assms(5) have "count_list u LF = 0" by (rule plain_no_LF)
  then have "count_list ?P LF = count_list (concat (map text_of fl)) LF"
    using count_list_encRecord [OF assms(3), of "fl @ [Bare u]"] by simp
  with locate_noBareCR [OF assms(7), of "line r" 1]
  have l: "locate (line r) 1 ?P =
             (line r + count_list (concat (map text_of fl)) LF, loopColumn 1 ?P)" by simp
  show "Read r =
           (Inl (ParseError (fst (locate (line r) 1 ?P)) (snd (locate (line r) 1 ?P)) ErrBareQuote),
            r\<lparr> src := Some rest, line := fst (locate (line r) 1 ?P) \<rparr>)"
    unfolding l
    using readLoop_bare_quote [OF assms(3,4,5,6), of "line r" rest] assms(1,2)
    by (simp add: Read_unfold)
next
  fix r0 e r1
  assume a: "Read r0 = (Inl e, r1) \<and> e \<noteq> EOF"
  show "\<exists>col k. e = ParseError (line r1) col k \<and> 0 < col \<and> line r0 \<le> line r1"
  proof (cases "finished r0 \<or> src r0 = None")
    case True
    then have "Read r0 = (Inl EOF, r0)" by (rule Read_finished)
    with a show ?thesis by auto
  next
    case False
    then obtain bytes where s: "src r0 = Some bytes" and nf: "\<not> finished r0" by auto
    obtain res rest' ln fin where
      l: "readLoop (comma_of r0) (quote_of r0) False False 1 0 [] [] (line r0) bytes
            = (res, rest', ln, fin)"
      by (metis prod_cases4)
    with a s nf have res: "res = Inl e"
      and r1: "r1 = r0\<lparr> src := Some rest', line := ln, finished := fin \<rparr>"
      by (auto simp: Read_unfold)
    from l res have "e = EOF \<or> (\<exists>col' k. e = ParseError ln col' k \<and> 0 < col')"
      by (auto dest: readLoop_error_location)
    moreover from l have "line r0 \<le> ln" by (rule readLoop_line_mono)
    ultimately show ?thesis using a r1 by auto
  qed
qed

theorem bare_quote_location_witness:
  "Read ((NewReader (''x,'' @ [DQ] @ ''p\<newline>q'' @ [DQ] @ '',ab'' @ [DQ] @ ''c''))\<lparr> line := 7 \<rparr>) =
     (Inl (ParseError 8 6 ErrBareQuote), (NewReader ''c'')\<lparr> line := 8 \<rparr>) \<and>
   locate 7 1 (''x,'' @ [DQ] @ ''p\<newline>q'' @ [DQ] @ '',ab'') = (8, 6)"
proof -
  let ?r = "(NewReader (''x,'' @ [DQ] @ ''p\<newline>q'' @ [DQ] @ '',ab'' @ [DQ] @ ''c''))\<lparr> line := 7 \<rparr>"
  let ?fl = "[Bare ''x'', Quoted ''p\<newline>q'']"
  have c: "comma_of ?r = COMMA" and q: "quote_of ?r = DQ"
    by (simp_all add: comma_of_def quote_of_def NewReader_def)
  have 1: "src ?r = Some (encRecord (comma_of ?r) (quote_of ?r) (?fl @ [Bare ''ab'']) @ quote_of ?r # ''c'')"
    unfolding c q by (simp add: NewReader_def)
  have 2: "\<not> finished ?r" by (simp add: NewReader_def)
  have 3: "sane (comma_of ?r) (quote_of ?r)" unfolding c q by (simp add: sane_def)
  have 4: "list_all (wellformed (comma_of ?r) (quote_of ?r)) ?fl" unfolding c q by (simp add: plain_def)
  have 5: "list_all (plain (comma_of ?r) (quote_of ?r)) ''ab''" unfolding c q by (simp add: plain_def)
  have 6: "''ab'' \<noteq> []" by simp
  have 7: "noBareCR (encRecord (comma_of ?r) (quote_of ?r) (?fl @ [Bare ''ab'']))"
    unfolding c q by simp
  have l: "locate 7 1 (''x,'' @ [DQ] @ ''p\<newline>q'' @ [DQ] @ '',ab'') = (8, 6)" by simp
  from bare_quote_location [OF 1 2 3 4 5 6 7] l show ?thesis
    unfolding c q by (simp add: NewReader_def)
qed

text \<open>
  Where the claim fails.  A bare CR inside a quoted field is a physical newline, yet the
  reader counts no line for it and goes on counting columns: the quote of \<open>"a\rb",c"d\<close> is on
  line 2, column 5 and is reported at line 1, column 8.  And the column starts at 1 with each
  call of \<open>Read\<close>: after the error at the first quote of \<open>ab"cd"e\<close> the next call reports the
  second quote, which is in column 6, at column 3.
\<close>

theorem bare_quote_location_counterexample:
  "Read (NewReader (DQ # ''a'' @ [CR] @ ''b'' @ [DQ] @ '',c'' @ [DQ] @ ''d'')) =
     (Inl (ParseError 1 8 ErrBareQuote), NewReader ''d'') \<and>
   locate 1 1 (DQ # ''a'' @ [CR] @ ''b'' @ [DQ] @ '',c'') = (2, 5) \<and>
   Read (snd (Read (NewReader (''ab'' @ [DQ] @ ''cd'' @ [DQ] @ ''e'')))) =
     (Inl (ParseError 1 3 ErrBareQuote), NewReader ''e'') \<and>
   locate 1 1 (''ab'' @ [DQ] @ ''cd'') = (1, 6)"
  by (simp add: Read_def NewReader_def wrapError_def Let_def)

text \<open>
  In the streaming reader a well-formed record ended by LF, by CR LF or by a bare CR (one not
  followed by LF) gives the same fields, and the bare CR is no part of the last field.
\<close>

lemma line_endings_agree:
  assumes "sane (comma_of r) (quote_of r)" and "\<not> finished r"
    and "flds \<noteq> []" and "list_all (wellformed (comma_of r) (quote_of r)) flds"
    and "rest = [] \<or> hd rest \<noteq> LF"
  shows "Read (r\<lparr> src := Some (encRecord (comma_of r) (quote_of r) flds @ LF # rest) \<rparr>) =
           (Inr (map text_of flds),
            r\<lparr> src := Some rest, line := line r + count_list (concat (map text_of flds)) LF + 1 \<rparr>)"
    and "Read (r\<lparr> src := Some (encRecord (comma_of r) (quote_of r) flds @ CR # LF # rest) \<rparr>) =
           (Inr (map text_of flds),
            r\<lparr> src := Some rest, line := line r + count_list (concat (map text_of flds)) LF + 1 \<rparr>)"
    and "Read (r\<lparr> src := Some (encRecord (comma_of r) (quote_of r) flds @ CR # rest) \<rparr>) =
           (Inr (map text_of flds),
            r\<lparr> src := Some rest, line := line r + count_list (concat (map text_of flds)) LF + 1 \<rparr>)"
proof -
  let ?c = "comma_of r" and ?q = "quote_of r"
  have cq: "\<And>s. comma_of (r\<lparr> src := s \<rparr>) = ?c" "\<And>s. quote_of (r\<lparr> src := s \<rparr>) = ?q"
    by (simp_all add: comma_of_def quote_of_def)
  show "Read (r\<lparr> src := Some (encRecord ?c ?q flds @ LF # rest) \<rparr>) =
           (Inr (map text_of flds),
            r\<lparr> src := Some rest, line := line r + count_list (concat (map text_of flds)) LF + 1 \<rparr>)"
    using Read_record_LF [of "r\<lparr> src := Some (encRecord ?c ?q flds @ LF # rest) \<rparr>" flds rest] assms
    by (simp add: cq)
  show "Read (r\<lparr> src := Some (encRecord ?c ?q flds @ CR # LF # rest) \<rparr>) =
           (Inr (map text_of flds),
            r\<lparr> src := Some rest, line := line r + count_list (concat (map text_of flds)) LF + 1 \<rparr>)"
    using Read_record_CR [of "r\<lparr> src := Some (encRecord ?c ?q flds @ CR # LF # rest) \<rparr>" flds "LF # rest"] assms
    by (simp add: cq)
  show "Read (r\<lparr> src := Some (encRecord ?c ?q flds @ CR # rest) \<rparr>) =
           (Inr (map text_of flds),
            r\<lparr> src := Some rest, line := line r + count_list (concat (map text_of flds)) LF + 1 \<rparr>)"
    using Read_record_CR [of "r\<lparr> src := Some (encRecord ?c ?q flds @ CR # rest) \<rparr>" flds rest] assms
    by (cases rest) (simp_all add: cq)
qed


text \<open>
  C6.  On \<open>,a,,b,\<close> followed by LF the line-based reader of \<open>csvc.go\<close> returns six fields: its
  step "add the last field" already yields the empty field after the trailing delimiter, and
  the step for a line that ends with the delimiter adds a second one.  The automaton reader
  and the streaming reader return the five fields of the claim.
\<close>

theorem trailing_delimiter_doubled_in_line_reader:
  "fst (Read_line (NewReader_line '',a,,b,\<newline>'')) = Inr [[], ''a'', [], ''b'', [], []] \<and>
   fst (Read_fsm (NewReader_fsm '',a,,b,\<newline>'')) = Inr [[], ''a'', [], ''b'', []] \<and>
   fst (Read (NewReader '',a,,b,\<newline>'')) = Inr [[], ''a'', [], ''b'', []]"
  by code_simp

end
